theory Spec2Isabelle
  imports Main "HOL-Library.FSet" "HOL-Library.Product_Lexorder"
begin

section \<open>Data model\<close>

text \<open>A board cell is a pair \<open>(row, column)\<close> of Python integers.\<close>

type_synonym cell = "int \<times> int"

text \<open>
  Class \<open>Sentence\<close>: a finite set of cells and the number of mines among them.
  The constructor copies its argument (\<open>set(cells)\<close>), so no two sentences share
  a cell set and a sentence is a plain value. Equality of records is the
  \<open>__eq__\<close> of the class: equal cell sets and equal counts.
\<close>

record sentence =
  cells :: "cell fset"
  count :: int

text \<open>Class \<open>MinesweeperAI\<close>.\<close>

record ai =
  height :: int
  width :: int
  moves_made :: "cell fset"
  mines :: "cell fset"
  safes :: "cell fset"
  knowledge :: "sentence list"

definition init_ai :: "int \<Rightarrow> int \<Rightarrow> ai" where
  "init_ai h w = \<lparr>height = h, width = w, moves_made = {||}, mines = {||},
     safes = {||}, knowledge = []\<rparr>"

section \<open>Sentence operations\<close>

definition known_mines :: "sentence \<Rightarrow> cell fset" where
  "known_mines x =
     (if int (fcard (cells x)) = count x \<and> count x \<noteq> 0 then cells x else {||})"

definition known_safes :: "sentence \<Rightarrow> cell fset" where
  "known_safes x = (if count x = 0 then cells x else {||})"

definition sentence_mark_mine :: "sentence \<Rightarrow> cell \<Rightarrow> sentence" where
  "sentence_mark_mine x c =
     (if c |\<in>| cells x then \<lparr>cells = cells x |-| {|c|}, count = count x - 1\<rparr> else x)"

definition sentence_mark_safe :: "sentence \<Rightarrow> cell \<Rightarrow> sentence" where
  "sentence_mark_safe x c =
     (if c |\<in>| cells x then \<lparr>cells = cells x |-| {|c|}, count = count x\<rparr> else x)"

section \<open>Knowledge base operations\<close>

definition mark_mine :: "ai \<Rightarrow> cell \<Rightarrow> ai" where
  "mark_mine s c =
     s\<lparr>mines := finsert c (mines s),
       knowledge := map (\<lambda>x. sentence_mark_mine x c) (knowledge s)\<rparr>"

definition mark_safe :: "ai \<Rightarrow> cell \<Rightarrow> ai" where
  "mark_safe s c =
     s\<lparr>safes := finsert c (safes s),
       knowledge := map (\<lambda>x. sentence_mark_safe x c) (knowledge s)\<rparr>"

text \<open>
  The two nested \<open>range\<close> loops of \<open>add_knowledge\<close> and \<open>nearby_mines\<close> visit the
  nine cells around \<open>cell\<close> row by row.
\<close>

definition around :: "cell \<Rightarrow> cell list" where
  "around c =
     concat (map (\<lambda>i. map (\<lambda>j. (i, j)) [snd c - 1 .. snd c + 1]) [fst c - 1 .. fst c + 1])"

text \<open>One iteration of the neighbour loop; the state is the pair \<open>(neighbors, count)\<close>.\<close>

definition neighbor_step :: "ai \<Rightarrow> cell \<Rightarrow> cell \<Rightarrow> cell fset \<times> int \<Rightarrow> cell fset \<times> int" where
  "neighbor_step s c p acc =
     (if p = c then acc
      else if 0 \<le> fst p \<and> fst p < height s \<and> 0 \<le> snd p \<and> snd p < width s then
        (if p |\<in>| mines s then (fst acc, snd acc - 1)
         else if p |\<notin>| safes s then (finsert p (fst acc), snd acc)
         else acc)
      else acc)"

definition new_sentence :: "ai \<Rightarrow> cell \<Rightarrow> int \<Rightarrow> sentence" where
  "new_sentence s c n =
     (let acc = fold (neighbor_step s c) (around c) ({||}, n)
      in \<lparr>cells = fst acc, count = snd acc\<rparr>)"

text \<open>
  The body of the extraction loop for one sentence. The inner \<open>for\<close> loops run over
  a copy of the set; the model visits it in sorted order.
\<close>

definition conclude :: "ai \<Rightarrow> sentence \<Rightarrow> ai" where
  "conclude s x =
     (let ms = known_mines x; sf = known_safes x in
      if ms \<noteq> {||} then fold (\<lambda>c t. mark_mine t c) (sorted_list_of_fset ms) s
      else if sf \<noteq> {||} then fold (\<lambda>c t. mark_safe t c) (sorted_list_of_fset sf) s
      else s)"

lemma length_knowledge_mark_mine [simp]:
  "length (knowledge (mark_mine s c)) = length (knowledge s)"
  by (simp add: mark_mine_def)

lemma length_knowledge_mark_safe [simp]:
  "length (knowledge (mark_safe s c)) = length (knowledge s)"
  by (simp add: mark_safe_def)

lemma length_knowledge_fold_mark_mine [simp]:
  "length (knowledge (fold (\<lambda>c t. mark_mine t c) cs s)) = length (knowledge s)"
  by (induction cs arbitrary: s) simp_all

lemma length_knowledge_fold_mark_safe [simp]:
  "length (knowledge (fold (\<lambda>c t. mark_safe t c) cs s)) = length (knowledge s)"
  by (induction cs arbitrary: s) simp_all

lemma length_knowledge_conclude [simp]:
  "length (knowledge (conclude s x)) = length (knowledge s)"
  by (simp add: conclude_def Let_def)

text \<open>
  \<open>for sentence in self.knowledge\<close>: the list iterator reads index \<open>i\<close> of the
  list as it is now, so a sentence is inspected in the state left by earlier marks.
\<close>

function extract_loop :: "nat \<Rightarrow> ai \<Rightarrow> ai" where
  "extract_loop i s =
     (if i < length (knowledge s) then extract_loop (Suc i) (conclude s (knowledge s ! i))
      else s)"
  by pat_completeness auto
termination
  by (relation "measure (\<lambda>(i, s). length (knowledge s) - i)") auto

declare extract_loop.simps [simp del]

definition prune :: "sentence list \<Rightarrow> sentence list" where
  "prune kb = filter (\<lambda>x. x \<noteq> \<lparr>cells = {||}, count = 0\<rparr>) kb"

definition inferred :: "sentence \<Rightarrow> sentence \<Rightarrow> sentence" where
  "inferred a b = \<lparr>cells = cells b |-| cells a, count = count b - count a\<rparr>"

text \<open>The body of the inner subset loop for the pair \<open>(a, b)\<close>.\<close>

definition subset_step :: "sentence list \<Rightarrow> sentence \<Rightarrow> sentence \<Rightarrow> sentence list" where
  "subset_step kb a b =
     (if cells a |\<subset>| cells b then
        (if inferred a b \<notin> set kb then kb @ [inferred a b] else kb)
      else kb)"

text \<open>
  The two nested \<open>for\<close> loops over \<open>self.knowledge\<close>, which grows while they run: both
  iterators see appended sentences. The loops need not end, so the result is an option.
\<close>

partial_function (option) subset_loop :: "sentence list \<Rightarrow> nat \<Rightarrow> nat \<Rightarrow> sentence list option" where
  "subset_loop kb i j =
     (if i < length kb then
        (if j < length kb then subset_loop (subset_step kb (kb ! i) (kb ! j)) i (Suc j)
         else subset_loop kb (Suc i) 0)
      else Some kb)"

declare subset_loop.simps [code]

text \<open>Steps 1 to 3 of \<open>add_knowledge\<close>: record the move, mark it safe, append the new sentence.\<close>

definition observe :: "ai \<Rightarrow> cell \<Rightarrow> int \<Rightarrow> ai" where
  "observe s c n =
     (let s1 = s\<lparr>moves_made := finsert c (moves_made s)\<rparr>;
          s2 = mark_safe s1 c
      in s2\<lparr>knowledge := knowledge s2 @ [new_sentence s2 c n]\<rparr>)"

definition add_knowledge :: "ai \<Rightarrow> cell \<Rightarrow> int \<Rightarrow> ai option" where
  "add_knowledge s c n =
     (let s4 = extract_loop 0 (observe s c n);
          kb = prune (knowledge s4)
      in map_option (\<lambda>kb'. s4\<lparr>knowledge := kb'\<rparr>) (subset_loop kb 0 0))"

section \<open>Move selection\<close>

text \<open>
  The cells \<open>make_random_move\<close> adds to \<open>eventualMoves\<close>, in the order of the two
  \<open>range\<close> loops.
\<close>

definition eventual_moves :: "ai \<Rightarrow> cell list" where
  "eventual_moves s =
     filter (\<lambda>p. p |\<notin>| moves_made s \<and> p |\<notin>| mines s)
       (concat (map (\<lambda>i. map (\<lambda>j. (i, j)) [0 .. width s - 1]) [0 .. height s - 1]))"

text \<open>
  \<open>eventualMoves.pop()\<close> removes and returns an arbitrary element of a local set:
  which one is fixed by the set's hash table, and no random source is read. The
  parameter \<open>pop\<close> stands for that choice, as a function of the elements in the
  order of their insertion. The method assigns no attribute of \<open>self\<close>; the
  model returns the state next to the result to make that explicit.
\<close>

definition make_random_move :: "(cell list \<Rightarrow> cell) \<Rightarrow> ai \<Rightarrow> cell option \<times> ai" where
  "make_random_move pop s =
     (let eventualMoves = eventual_moves s
      in if length eventualMoves = 0 then (None, s) else (Some (pop eventualMoves), s))"

section \<open>Sequences of calls\<close>

datatype call = Add_knowledge cell int | Mark_mine cell | Mark_safe cell

fun step :: "ai \<Rightarrow> call \<Rightarrow> ai option" where
  "step s (Add_knowledge c n) = add_knowledge s c n"
| "step s (Mark_mine c) = Some (mark_mine s c)"
| "step s (Mark_safe c) = Some (mark_safe s c)"

fun run :: "ai \<Rightarrow> call list \<Rightarrow> ai option" where
  "run s [] = Some s"
| "run s (c # cs) = (case step s c of None \<Rightarrow> None | Some t \<Rightarrow> run t cs)"

section \<open>The board\<close>

text \<open>
  Class \<open>Minesweeper\<close>, as far as the knowledge base depends on it: the constructor
  builds \<open>board\<close> as \<open>height\<close> rows of \<open>width\<close> booleans. \<open>py_index\<close> is the list
  subscript of Python: a negative index counts from the end, and an index out of range
  raises \<open>IndexError\<close> (the value \<open>None\<close>).
\<close>

record minesweeper =
  ms_height :: int
  ms_width :: int
  board :: "bool list list"

definition py_index :: "'a list \<Rightarrow> int \<Rightarrow> 'a option" where
  "py_index xs i =
     (if 0 \<le> i \<and> i < int (length xs) then Some (xs ! nat i)
      else if i < 0 \<and> - int (length xs) \<le> i then Some (xs ! nat (int (length xs) + i))
      else None)"

definition is_mine :: "minesweeper \<Rightarrow> cell \<Rightarrow> bool option" where
  "is_mine g c =
     (case py_index (board g) (fst c) of None \<Rightarrow> None | Some row \<Rightarrow> py_index row (snd c))"

text \<open>
  \<open>nearby_mines\<close>: the loop over the cells around \<open>cell\<close>, with the running count;
  \<open>self.board[i][j]\<close> is read only inside the bounds.
\<close>

fun nearby_loop :: "minesweeper \<Rightarrow> cell \<Rightarrow> cell list \<Rightarrow> int \<Rightarrow> int option" where
  "nearby_loop g c [] k = Some k"
| "nearby_loop g c (p # ps) k =
     (if p = c then nearby_loop g c ps k
      else if 0 \<le> fst p \<and> fst p < ms_height g \<and> 0 \<le> snd p \<and> snd p < ms_width g then
        (case is_mine g p of
           None \<Rightarrow> None
         | Some b \<Rightarrow> nearby_loop g c ps (if b then k + 1 else k))
      else nearby_loop g c ps k)"

definition nearby_mines :: "minesweeper \<Rightarrow> cell \<Rightarrow> int option" where
  "nearby_mines g c = nearby_loop g c (around c) 0"

section \<open>Specification predicates\<close>

text \<open>
  A call is truthful for a board when it reports what the board holds: a revealed cell
  is not a mine and its count is the one \<open>nearby_mines\<close> returns; a cell marked as a
  mine is one, a cell marked safe is not.
\<close>

fun truthful :: "minesweeper \<Rightarrow> call \<Rightarrow> bool" where
  "truthful g (Add_knowledge c n) = (is_mine g c = Some False \<and> nearby_mines g c = Some n)"
| "truthful g (Mark_mine c) = (is_mine g c = Some True)"
| "truthful g (Mark_safe c) = (is_mine g c = Some False)"

definition mine_cells :: "minesweeper \<Rightarrow> cell set" where
  "mine_cells g = {p. is_mine g p = Some True}"

text \<open>A mine layout \<open>M\<close> satisfies a sentence when exactly \<open>count\<close> of its cells are in \<open>M\<close>.\<close>

definition satisfies :: "cell set \<Rightarrow> sentence \<Rightarrow> bool" where
  "satisfies M x = (count x = int (card (fset (cells x) \<inter> M)))"

text \<open>A knowledge base is consistent with a layout: marks and sentences are all true of it.\<close>

definition consistent :: "cell set \<Rightarrow> ai \<Rightarrow> bool" where
  "consistent M s =
     (fset (mines s) \<subseteq> M \<and> fset (safes s) \<inter> M = {} \<and> (\<forall>x \<in> set (knowledge s). satisfies M x))"

text \<open>
  A call is admissible in a state when it does not mark safe a cell already marked as a
  mine, nor mark as a mine a cell already marked safe (\<open>add_knowledge\<close> marks its cell
  safe).
\<close>

fun admissible :: "ai \<Rightarrow> call \<Rightarrow> bool" where
  "admissible s (Add_knowledge c n) = (c |\<notin>| mines s)"
| "admissible s (Mark_mine c) = (c |\<notin>| safes s)"
| "admissible s (Mark_safe c) = (c |\<notin>| mines s)"

fun admissible_run :: "ai \<Rightarrow> call list \<Rightarrow> bool" where
  "admissible_run s [] = True"
| "admissible_run s (c # cs) =
     (admissible s c \<and> (case step s c of None \<Rightarrow> False | Some t \<Rightarrow> admissible_run t cs))"

text \<open>No cell of a sentence is marked; no cell is marked both ways.\<close>

definition unmarked :: "ai \<Rightarrow> sentence \<Rightarrow> bool" where
  "unmarked s x = (\<forall>c. c |\<in>| cells x \<longrightarrow> c |\<notin>| mines s \<and> c |\<notin>| safes s)"

definition separated :: "ai \<Rightarrow> bool" where
  "separated s = ((\<forall>c. c |\<in>| mines s \<longrightarrow> c |\<notin>| safes s) \<and> (\<forall>x \<in> set (knowledge s). unmarked s x))"





definition doomed :: "sentence list \<Rightarrow> nat \<Rightarrow> nat \<Rightarrow> bool" where
  "doomed kb i j =
     (\<exists>e. i \<le> e \<and> e < length kb \<and> cells (kb ! e) = {||} \<and> count (kb ! e) \<noteq> 0
        \<and> (\<exists>x \<in> set kb. cells x \<noteq> {||})
        \<and> (e = i \<longrightarrow>
            (\<exists>y \<in> set (drop j kb). cells y \<noteq> {||}
               \<and> (\<forall>z \<in> set kb. cells z = cells y \<longrightarrow>
                     count (kb ! i) * count y \<le> count (kb ! i) * count z))))"

section \<open>Reasoning about the subset loop\<close>

lemmas subset_loop_induct = subset_loop.raw_induct [rotated 1, consumes 1]

text \<open>
  A property of the knowledge list that every append of the loop body preserves holds
  of the list the loop returns.
\<close>

lemma subset_loop_rule:
  assumes step: "\<And>kb a b. P kb \<Longrightarrow> a \<in> set kb \<Longrightarrow> b \<in> set kb \<Longrightarrow> cells a |\<subset>| cells b \<Longrightarrow>
           inferred a b \<notin> set kb \<Longrightarrow> P (kb @ [inferred a b])"
  shows "subset_loop kb i j = Some kb' \<Longrightarrow> P kb \<Longrightarrow> P kb'"
proof (induction kb i j kb' rule: subset_loop_induct)
  case (1 loop kb i j kb')
  show ?case
  proof (cases "i < length kb")
    case False
    with 1 show ?thesis by simp
  next
    case i: True
    show ?thesis
    proof (cases "j < length kb")
      case False
      with i 1(2) have "loop kb (Suc i) 0 = Some kb'" by simp
      then show ?thesis using 1 by blast
    next
      case j: True
      have "P (subset_step kb (kb ! i) (kb ! j))"
        using 1 i j step [of kb "kb ! i" "kb ! j"]
        by (simp add: subset_step_def)
      moreover from i j 1(2)
      have "loop (subset_step kb (kb ! i) (kb ! j)) i (Suc j) = Some kb'" by simp
      ultimately show ?thesis using 1(1) by blast
    qed
  qed
qed

lemma subset_loop_keeps:
  assumes "subset_loop kb i j = Some kb'"
  shows "set kb \<subseteq> set kb'"
  using assms
  by (rule subset_loop_rule [where P = "\<lambda>k. set kb \<subseteq> set k", rotated 1]) auto

lemma subset_loop_all:
  assumes "subset_loop kb i j = Some kb'"
    and "\<forall>x \<in> set kb. Q x"
    and "\<And>a b. Q a \<Longrightarrow> Q b \<Longrightarrow> cells a |\<subset>| cells b \<Longrightarrow> Q (inferred a b)"
  shows "\<forall>x \<in> set kb'. Q x"
  using assms(1,2)
  by (rule subset_loop_rule [where P = "\<lambda>k. \<forall>x \<in> set k. Q x", rotated 1]) (auto intro: assms(3))

lemma inferred_not_empty:
  "cells a |\<subset>| cells b \<Longrightarrow> inferred a b \<noteq> \<lparr>cells = {||}, count = 0\<rparr>"
  by (auto simp: inferred_def)

lemma knowledge_add_knowledge:
  assumes "add_knowledge s c n = Some s'"
  shows "subset_loop (prune (knowledge (extract_loop 0 (observe s c n)))) 0 0 = Some (knowledge s')"
  using assms by (auto simp: add_knowledge_def Let_def)

section \<open>Order of the marking loops\<close>

text \<open>
  Python visits the copied set in an order of its own. The marks commute and repeat
  without effect, so every order of visiting the same cells gives the same state.
\<close>

lemma sentence_mark_mine_commute:
  "sentence_mark_mine (sentence_mark_mine x c) d = sentence_mark_mine (sentence_mark_mine x d) c"
  by (auto simp: sentence_mark_mine_def)

lemma sentence_mark_safe_commute:
  "sentence_mark_safe (sentence_mark_safe x c) d = sentence_mark_safe (sentence_mark_safe x d) c"
  by (auto simp: sentence_mark_safe_def)

lemma mark_mine_commute: "mark_mine (mark_mine s c) d = mark_mine (mark_mine s d) c"
  by (simp add: mark_mine_def comp_def sentence_mark_mine_commute finsert_commute)

lemma mark_safe_commute: "mark_safe (mark_safe s c) d = mark_safe (mark_safe s d) c"
  by (simp add: mark_safe_def comp_def sentence_mark_safe_commute finsert_commute)

lemma mark_mine_twice: "mark_mine (mark_mine s c) c = mark_mine s c"
  by (auto simp: mark_mine_def sentence_mark_mine_def)

lemma mark_safe_twice: "mark_safe (mark_safe s c) c = mark_safe s c"
  by (auto simp: mark_safe_def sentence_mark_safe_def)

lemma mark_mine_any_order:
  assumes "set cs = set ds"
  shows "fold (\<lambda>c t. mark_mine t c) cs s = fold (\<lambda>c t. mark_mine t c) ds s"
proof -
  have "comp_fun_idem_on UNIV (\<lambda>c t. mark_mine t c)"
    by (simp add: comp_fun_idem_on_def comp_fun_commute_on_def comp_fun_idem_on_axioms_def
        fun_eq_iff mark_mine_commute mark_mine_twice)
  from comp_fun_idem_on.fold_set_fold [OF this, of cs s] comp_fun_idem_on.fold_set_fold [OF this, of ds s]
  show ?thesis
    using assms by simp
qed

lemma mark_safe_any_order:
  assumes "set cs = set ds"
  shows "fold (\<lambda>c t. mark_safe t c) cs s = fold (\<lambda>c t. mark_safe t c) ds s"
proof -
  have "comp_fun_idem_on UNIV (\<lambda>c t. mark_safe t c)"
    by (simp add: comp_fun_idem_on_def comp_fun_commute_on_def comp_fun_idem_on_axioms_def
        fun_eq_iff mark_safe_commute mark_safe_twice)
  from comp_fun_idem_on.fold_set_fold [OF this, of cs s] comp_fun_idem_on.fold_set_fold [OF this, of ds s]
  show ?thesis
    using assms by simp
qed

lemma conclude_any_order:
  assumes "set ms = fset (known_mines x)" and "set sf = fset (known_safes x)"
  shows "conclude s x =
     (if known_mines x \<noteq> {||} then fold (\<lambda>c t. mark_mine t c) ms s
      else if known_safes x \<noteq> {||} then fold (\<lambda>c t. mark_safe t c) sf s
      else s)"
  using mark_mine_any_order [of "sorted_list_of_fset (known_mines x)" ms s]
    mark_safe_any_order [of "sorted_list_of_fset (known_safes x)" sf s] assms
  by (simp add: conclude_def Let_def)

section \<open>Known mines and known safes\<close>

text \<open>
  C7. \<open>known_mines\<close> returns all cells of the sentence exactly when the count equals
  the number of cells and is not zero, and the empty set otherwise; \<open>known_safes\<close>
  returns all cells exactly when the count is zero, and the empty set otherwise; the
  empty sentence with count zero is not reported as all mines.
\<close>

theorem known_mines_known_safes_spec:
  "known_mines x = (if count x = int (fcard (cells x)) \<and> count x \<noteq> 0 then cells x else {||})
   \<and> known_safes x = (if count x = 0 then cells x else {||})
   \<and> (known_mines x \<noteq> {||} \<longleftrightarrow> count x = int (fcard (cells x)) \<and> count x \<noteq> 0)
   \<and> known_mines \<lparr>cells = {||}, count = 0\<rparr> = {||}"
  by (auto simp: known_mines_def known_safes_def fcard_fempty)

section \<open>Propagation of a mark\<close>

lemma sentence_mark_mine_absent: "c |\<notin>| cells (sentence_mark_mine x c)"
  by (simp add: sentence_mark_mine_def)

lemma sentence_mark_safe_absent: "c |\<notin>| cells (sentence_mark_safe x c)"
  by (simp add: sentence_mark_safe_def)

text \<open>
  C2. After \<open>MinesweeperAI.mark_mine(c)\<close> and after \<open>MinesweeperAI.mark_safe(c)\<close>, no
  sentence of the knowledge base contains \<open>c\<close>, whatever the state before.
\<close>

theorem mark_propagates:
  "(\<forall>x \<in> set (knowledge (mark_mine s c)). c |\<notin>| cells x)
   \<and> (\<forall>x \<in> set (knowledge (mark_safe s c)). c |\<notin>| cells x)"
  by (auto simp: mark_mine_def mark_safe_def sentence_mark_mine_absent sentence_mark_safe_absent)

theorem mark_propagates_witness:
  "\<lparr>cells = {|(0, 1)|}, count = 0\<rparr>
     \<in> set (knowledge (mark_mine
          ((init_ai 2 2)\<lparr>knowledge := [\<lparr>cells = {|(0, 1), (1, 1)|}, count = 1\<rparr>]\<rparr>) (1, 1)))
   \<and> (1, 1) |\<notin>| cells \<lparr>cells = {|(0, 1)|}, count = (0::int)\<rparr>
   \<and> \<lparr>cells = {|(0, 1)|}, count = 1\<rparr>
     \<in> set (knowledge (mark_safe
          ((init_ai 2 2)\<lparr>knowledge := [\<lparr>cells = {|(0, 1), (1, 1)|}, count = 1\<rparr>]\<rparr>) (1, 1)))"
proof -
  let ?s = "(init_ai 2 2)\<lparr>knowledge := [\<lparr>cells = {|(0, 1), (1, 1)|}, count = 1\<rparr>]\<rparr>"
  have m: "\<lparr>cells = {|(0, 1)|}, count = 0\<rparr> \<in> set (knowledge (mark_mine ?s (1, 1)))"
    by code_simp
  have f: "\<lparr>cells = {|(0, 1)|}, count = 1\<rparr> \<in> set (knowledge (mark_safe ?s (1, 1)))"
    by code_simp
  have n: "(1, 1) |\<notin>| cells \<lparr>cells = {|(0, 1)|}, count = (0::int)\<rparr>"
    by (rule mark_propagates [of ?s "(1, 1)", THEN conjunct1, THEN bspec, OF m])
  from m n f show ?thesis by (intro conjI)
qed

section \<open>Duplicate sentences\<close>

text \<open>
  C4. The observation sentence is appended without a look at the list: on a 2 by 2
  board with its mine at \<open>(1, 1)\<close>, revealing \<open>(0, 0)\<close> and then \<open>(1, 0)\<close> (both
  with count 1) leaves two equal sentences in the knowledge base.
\<close>

theorem duplicate_observation_sentence:
  "map_option knowledge (run (init_ai 2 2) [Add_knowledge (0, 0) 1, Add_knowledge (1, 0) 1])
   = Some [\<lparr>cells = {|(0, 1), (1, 1)|}, count = 1\<rparr>, \<lparr>cells = {|(0, 1), (1, 1)|}, count = 1\<rparr>]"
  by code_simp

section \<open>The extraction pass\<close>




section \<open>Pruning\<close>

text \<open>
  C9 as stated fails. On a 1 by 3 board, revealing \<open>(0, 0)\<close> with count 1 marks
  \<open>(0, 1)\<close> as a mine; revealing \<open>(0, 2)\<close> with count 0 then builds the sentence
  \<open>{} = -1\<close>. The call returns, and the sentence stays in the knowledge base.
\<close>

theorem prune_keeps_empty_cells:
  "map_option knowledge (run (init_ai 1 3) [Add_knowledge (0, 0) 1, Add_knowledge (0, 2) 0])
   = Some [\<lparr>cells = {||}, count = - 1\<rparr>]"
  by code_simp

text \<open>
  C9, amended. The prune step removes exactly the sentences equal to the empty
  sentence with count 0. A sentence with no cells and a count other than 0 is kept:
  whenever \<open>add_knowledge\<close> returns, that sentence is still in the knowledge base, and
  no sentence of the returned knowledge base is the empty sentence with count 0.
\<close>

theorem prune_only_empty_zero:
  "prune kb = filter (\<lambda>x. cells x \<noteq> {||} \<or> count x \<noteq> 0) kb
   \<and> (\<forall>s'. add_knowledge s c n = Some s' \<longrightarrow>
        (\<forall>x \<in> set (knowledge s'). x \<noteq> \<lparr>cells = {||}, count = 0\<rparr>)
        \<and> (\<forall>x \<in> set (knowledge (extract_loop 0 (observe s c n))).
              cells x = {||} \<and> count x \<noteq> 0 \<longrightarrow> x \<in> set (knowledge s')))"
proof (intro conjI allI impI)
  have "(x \<noteq> \<lparr>cells = {||}, count = 0\<rparr>) = (cells x \<noteq> {||} \<or> count x \<noteq> 0)" for x :: sentence
    by (cases x) auto
  then show "prune kb = filter (\<lambda>x. cells x \<noteq> {||} \<or> count x \<noteq> 0) kb"
    by (simp add: prune_def)
next
  fix s' assume a: "add_knowledge s c n = Some s'"
  let ?kb = "prune (knowledge (extract_loop 0 (observe s c n)))"
  from a have l: "subset_loop ?kb 0 0 = Some (knowledge s')"
    by (rule knowledge_add_knowledge)
  have "\<forall>x \<in> set ?kb. x \<noteq> \<lparr>cells = {||}, count = 0\<rparr>"
    by (simp add: prune_def)
  with l show "\<forall>x \<in> set (knowledge s'). x \<noteq> \<lparr>cells = {||}, count = 0\<rparr>"
    by (rule subset_loop_all) (rule inferred_not_empty)
  show "\<forall>x \<in> set (knowledge (extract_loop 0 (observe s c n))).
          cells x = {||} \<and> count x \<noteq> 0 \<longrightarrow> x \<in> set (knowledge s')"
  proof (intro ballI impI)
    fix x assume "x \<in> set (knowledge (extract_loop 0 (observe s c n)))"
      and "cells x = {||} \<and> count x \<noteq> 0"
    then have "x \<in> set ?kb" by (auto simp: prune_def)
    with subset_loop_keeps [OF l] show "x \<in> set (knowledge s')" by blast
  qed
qed

theorem prune_only_empty_zero_witness:
  "add_knowledge ((init_ai 1 3)\<lparr>moves_made := {|(0, 0)|}, mines := {|(0, 1)|},
        safes := {|(0, 0)|}\<rparr>) (0, 2) 0
     = Some ((init_ai 1 3)\<lparr>moves_made := {|(0, 0), (0, 2)|}, mines := {|(0, 1)|},
          safes := {|(0, 0), (0, 2)|}, knowledge := [\<lparr>cells = {||}, count = - 1\<rparr>]\<rparr>)
   \<and> \<lparr>cells = {||}, count = - 1\<rparr>
       \<in> set (knowledge (extract_loop 0 (observe ((init_ai 1 3)\<lparr>moves_made := {|(0, 0)|},
            mines := {|(0, 1)|}, safes := {|(0, 0)|}\<rparr>) (0, 2) 0)))
   \<and> \<lparr>cells = {||}, count = - 1\<rparr>
       \<in> set (knowledge ((init_ai 1 3)\<lparr>moves_made := {|(0, 0), (0, 2)|}, mines := {|(0, 1)|},
          safes := {|(0, 0), (0, 2)|}, knowledge := [\<lparr>cells = {||}, count = - 1\<rparr>]\<rparr>))
   \<and> prune [\<lparr>cells = {||}, count = 0\<rparr>, \<lparr>cells = {||}, count = - 1\<rparr>]
     = [\<lparr>cells = {||}, count = - 1\<rparr>]"
proof -
  let ?s = "(init_ai 1 3)\<lparr>moves_made := {|(0, 0)|}, mines := {|(0, 1)|}, safes := {|(0, 0)|}\<rparr>"
  let ?t = "(init_ai 1 3)\<lparr>moves_made := {|(0, 0), (0, 2)|}, mines := {|(0, 1)|},
          safes := {|(0, 0), (0, 2)|}, knowledge := [\<lparr>cells = {||}, count = - 1\<rparr>]\<rparr>"
  let ?x = "\<lparr>cells = {||}, count = - 1\<rparr> :: sentence"
  have a: "add_knowledge ?s (0, 2) 0 = Some ?t"
    by code_simp
  have b: "?x \<in> set (knowledge (extract_loop 0 (observe ?s (0, 2) 0)))"
    by code_simp
  have e: "cells ?x = {||} \<and> count ?x \<noteq> 0"
    by simp
  note th = prune_only_empty_zero [of "[\<lparr>cells = {||}, count = 0\<rparr>, ?x]" ?s "(0, 2)" 0]
  have q: "?x \<in> set (knowledge ?t)"
    by (rule th [THEN conjunct2, THEN spec, THEN mp, OF a, THEN conjunct2, THEN bspec, OF b,
          THEN mp, OF e])
  have p: "prune [\<lparr>cells = {||}, count = 0\<rparr>, ?x] = [?x]"
    using th [THEN conjunct1] by simp
  from a b q p show ?thesis by (intro conjI)
qed

section \<open>The random move\<close>

lemma set_grid:
  "set (concat (map (\<lambda>i. map (\<lambda>j. (i, j)) [0 .. w - 1]) [0 .. h - 1])) =
     {p. 0 \<le> fst p \<and> fst p < h \<and> 0 \<le> snd p \<and> snd p < w}"
  by (auto simp: image_iff)

lemma set_eventual_moves:
  "set (eventual_moves s) =
     {p. 0 \<le> fst p \<and> fst p < height s \<and> 0 \<le> snd p \<and> snd p < width s
         \<and> p |\<notin>| moves_made s \<and> p |\<notin>| mines s}"
  unfolding eventual_moves_def set_filter set_grid by auto

lemma make_random_move_None:
  "fst (make_random_move pop s) = None \<longleftrightarrow> set (eventual_moves s) = {}"
  by (cases "eventual_moves s") (simp_all add: make_random_move_def Let_def)

lemma make_random_move_excludes:
  assumes "\<And>xs. xs \<noteq> [] \<Longrightarrow> pop xs \<in> set xs"
    and "fst (make_random_move pop s) = Some p"
  shows "p |\<notin>| moves_made s \<and> p |\<notin>| mines s \<and> p \<in> set (eventual_moves s)"
proof -
  from assms(2) have "eventual_moves s \<noteq> []" and "p = pop (eventual_moves s)"
    by (auto simp: make_random_move_def Let_def split: if_splits)
  with assms(1) have "p \<in> set (eventual_moves s)" by blast
  then show ?thesis by (simp add: set_eventual_moves)
qed

lemma make_random_move_state: "snd (make_random_move pop s) = s"
  by (simp add: make_random_move_def Let_def)

text \<open>
  C8. On a fresh 2 by 2 board four cells can be chosen, and the method returns the
  one cell that \<open>pop\<close> yields for the set built from them: the same cell at every
  call, and the state is unchanged.
\<close>

theorem make_random_move_fresh_board:
  "make_random_move pop (init_ai 2 2)
   = (Some (pop [(0, 0), (0, 1), (1, 0), (1, 1)]), init_ai 2 2)
   \<and> make_random_move pop (snd (make_random_move pop (init_ai 2 2)))
     = make_random_move pop (init_ai 2 2)"
  by (simp add: make_random_move_state) code_simp



section \<open>Mines and safes stay apart\<close>

lemma separated_mark_mine:
  assumes "separated s" and "c |\<notin>| safes s"
  shows "separated (mark_mine s c)"
  using assms
  by (auto simp: separated_def unmarked_def mark_mine_def sentence_mark_mine_def)

lemma separated_mark_safe:
  assumes "separated s" and "c |\<notin>| mines s"
  shows "separated (mark_safe s c)"
  using assms
  by (auto simp: separated_def unmarked_def mark_safe_def sentence_mark_safe_def)

lemma safes_mark_mine [simp]: "safes (mark_mine s c) = safes s"
  by (simp add: mark_mine_def)

lemma mines_mark_safe [simp]: "mines (mark_safe s c) = mines s"
  by (simp add: mark_safe_def)

lemma separated_fold_mark_mine:
  "separated s \<Longrightarrow> \<forall>c \<in> set cs. c |\<notin>| safes s \<Longrightarrow> separated (fold (\<lambda>c t. mark_mine t c) cs s)"
  by (induction cs arbitrary: s) (simp_all add: separated_mark_mine)

lemma separated_fold_mark_safe:
  "separated s \<Longrightarrow> \<forall>c \<in> set cs. c |\<notin>| mines s \<Longrightarrow> separated (fold (\<lambda>c t. mark_safe t c) cs s)"
  by (induction cs arbitrary: s) (simp_all add: separated_mark_safe)

lemma known_mines_subset: "c |\<in>| known_mines x \<Longrightarrow> c |\<in>| cells x"
  by (simp add: known_mines_def split: if_splits)

lemma known_safes_subset: "c |\<in>| known_safes x \<Longrightarrow> c |\<in>| cells x"
  by (simp add: known_safes_def split: if_splits)

lemma separated_conclude:
  assumes "separated s" and "x \<in> set (knowledge s)"
  shows "separated (conclude s x)"
proof -
  from assms have d: "\<forall>c. c |\<in>| cells x \<longrightarrow> c |\<notin>| mines s \<and> c |\<notin>| safes s"
    by (simp add: separated_def unmarked_def)
  have "\<forall>c \<in> set (sorted_list_of_fset (known_mines x)). c |\<notin>| safes s"
    using d known_mines_subset [of _ x] by auto
  moreover have "\<forall>c \<in> set (sorted_list_of_fset (known_safes x)). c |\<notin>| mines s"
    using d known_safes_subset [of _ x] by auto
  ultimately show ?thesis
    using assms(1) by (simp add: conclude_def Let_def separated_fold_mark_mine separated_fold_mark_safe)
qed

lemma separated_extract_loop: "separated s \<Longrightarrow> separated (extract_loop i s)"
proof (induction i s rule: extract_loop.induct)
  case (1 i s)
  show ?case
  proof (cases "i < length (knowledge s)")
    case True
    with 1 show ?thesis
      by (subst extract_loop.simps) (simp add: separated_conclude)
  next
    case False
    with 1 show ?thesis
      by (subst extract_loop.simps) simp
  qed
qed

lemma neighbor_step_cells:
  "p |\<in>| fst (neighbor_step s c q acc) \<Longrightarrow>
     p |\<in>| fst acc \<or> (p |\<notin>| mines s \<and> p |\<notin>| safes s)"
  by (auto simp: neighbor_step_def split: if_splits)

lemma neighbor_fold_cells:
  "p |\<in>| fst (fold (neighbor_step s c) ps acc) \<Longrightarrow>
     p |\<in>| fst acc \<or> (p |\<notin>| mines s \<and> p |\<notin>| safes s)"
proof (induction ps arbitrary: acc)
  case Nil
  then show ?case by simp
next
  case (Cons q ps)
  from Cons.prems have "p |\<in>| fst (fold (neighbor_step s c) ps (neighbor_step s c q acc))"
    by simp
  from Cons.IH [OF this] neighbor_step_cells [of p s c q acc] show ?case
    by blast
qed

lemma new_sentence_unmarked: "unmarked s (new_sentence s c n)"
  using neighbor_fold_cells [of _ s c "around c" "({||}, n)"]
  by (auto simp: unmarked_def new_sentence_def Let_def)

lemma unmarked_moves_made [simp]: "unmarked (s\<lparr>moves_made := m\<rparr>) x = unmarked s x"
  by (simp add: unmarked_def)

lemma separated_observe:
  assumes "separated s" and "c |\<notin>| mines s"
  shows "separated (observe s c n)"
proof -
  let ?s1 = "s\<lparr>moves_made := finsert c (moves_made s)\<rparr>"
  have "separated ?s1" "c |\<notin>| mines ?s1"
    using assms by (simp_all add: separated_def unmarked_def)
  then have "separated (mark_safe ?s1 c)"
    by (rule separated_mark_safe)
  with new_sentence_unmarked [of "mark_safe ?s1 c" c n] show ?thesis
    by (simp add: observe_def Let_def separated_def unmarked_def)
qed

lemma unmarked_inferred: "unmarked s b \<Longrightarrow> unmarked s (inferred a b)"
  by (auto simp: unmarked_def inferred_def)

lemma add_knowledge_fields:
  assumes "add_knowledge s c n = Some s'"
  shows "mines s' = mines (extract_loop 0 (observe s c n))"
    and "safes s' = safes (extract_loop 0 (observe s c n))"
    and "height s' = height (extract_loop 0 (observe s c n))"
    and "width s' = width (extract_loop 0 (observe s c n))"
    and "moves_made s' = moves_made (extract_loop 0 (observe s c n))"
  using assms by (auto simp: add_knowledge_def Let_def)

lemma separated_add_knowledge:
  assumes "separated s" and "c |\<notin>| mines s" and "add_knowledge s c n = Some s'"
  shows "separated s'"
proof -
  let ?t = "extract_loop 0 (observe s c n)"
  have t: "separated ?t"
    using assms(1,2) by (simp add: separated_observe separated_extract_loop)
  then have "\<forall>x \<in> set (prune (knowledge ?t)). unmarked ?t x"
    by (simp add: separated_def prune_def)
  with knowledge_add_knowledge [OF assms(3)]
  have "\<forall>x \<in> set (knowledge s'). unmarked ?t x"
    by (rule subset_loop_all) (rule unmarked_inferred)
  with t show ?thesis
    by (simp add: separated_def unmarked_def add_knowledge_fields [OF assms(3)])
qed

lemma separated_step:
  assumes "separated s" and "admissible s c" and "step s c = Some t"
  shows "separated t"
  using assms
  by (cases c) (auto simp: separated_add_knowledge separated_mark_mine separated_mark_safe)

lemma separated_run:
  "separated s \<Longrightarrow> admissible_run s cs \<Longrightarrow> run s cs = Some t \<Longrightarrow> separated t"
proof (induction cs arbitrary: s)
  case Nil
  then show ?case by simp
next
  case (Cons c cs)
  then show ?case
    by (auto split: option.splits dest: separated_step)
qed

lemma separated_init: "separated (init_ai h w)"
  by (simp add: separated_def init_ai_def)

text \<open>
  C6 as stated fails. On a 1 by 2 board, revealing \<open>(0, 0)\<close> with count 1 marks
  \<open>(0, 1)\<close> as a mine; revealing \<open>(0, 1)\<close> afterwards marks the same cell safe.
\<close>

theorem marked_mine_and_safe:
  "map_option (\<lambda>s. mines s |\<inter>| safes s)
     (run (init_ai 1 2) [Add_knowledge (0, 0) 1, Add_knowledge (0, 1) 0])
   = Some {|(0, 1)|}"
  by code_simp

text \<open>
  C6, amended. Starting from a new knowledge base, after any sequence of admissible
  calls (no call marks safe a cell that is marked as a mine, or marks as a mine a cell
  that is marked safe) the marked mines and the marked safes are disjoint.
\<close>

theorem mines_safes_disjoint:
  assumes "admissible_run (init_ai h w) cs" and "run (init_ai h w) cs = Some s"
  shows "mines s |\<inter>| safes s = {||}"
  using separated_run [OF separated_init assms] by (auto simp: separated_def)

theorem mines_safes_disjoint_witness:
  "admissible_run (init_ai 2 2) [Add_knowledge (0, 0) 1, Mark_mine (1, 1), Add_knowledge (1, 0) 1]
   \<and> run (init_ai 2 2) [Add_knowledge (0, 0) 1, Mark_mine (1, 1), Add_knowledge (1, 0) 1]
     = Some ((init_ai 2 2)\<lparr>moves_made := {|(0, 0), (1, 0)|}, mines := {|(1, 1)|},
          safes := {|(0, 0), (1, 0), (0, 1)|}\<rparr>)
   \<and> mines ((init_ai 2 2)\<lparr>moves_made := {|(0, 0), (1, 0)|}, mines := {|(1, 1)|},
          safes := {|(0, 0), (1, 0), (0, 1)|}\<rparr>)
     |\<inter>| safes ((init_ai 2 2)\<lparr>moves_made := {|(0, 0), (1, 0)|}, mines := {|(1, 1)|},
          safes := {|(0, 0), (1, 0), (0, 1)|}\<rparr>) = {||}"
proof -
  let ?cs = "[Add_knowledge (0, 0) 1, Mark_mine (1, 1), Add_knowledge (1, 0) 1]"
  let ?t = "(init_ai 2 2)\<lparr>moves_made := {|(0, 0), (1, 0)|}, mines := {|(1, 1)|},
          safes := {|(0, 0), (1, 0), (0, 1)|}\<rparr>"
  have a: "admissible_run (init_ai 2 2) ?cs"
    by code_simp
  have r: "run (init_ai 2 2) ?cs = Some ?t"
    by code_simp
  from a r mines_safes_disjoint [OF a r] show ?thesis
    by (intro conjI)
qed

section \<open>Counts in a truthful game\<close>

lemma upto3: "[x - 1 .. x + 1] = [x - 1, x, x + (1::int)]"
  by (simp add: upto_rec1 [of "x - 1"] upto_rec1 [of x] upto_rec1 [of "x + 1"])

lemma around_explicit:
  "around (i, j) = [(i - 1, j - 1), (i - 1, j), (i - 1, j + 1), (i, j - 1), (i, j), (i, j + 1),
     (i + 1, j - 1), (i + 1, j), (i + 1, j + 1)]"
  by (simp add: around_def upto3)

lemma distinct_around: "distinct (around c)"
  by (cases c) (simp add: around_explicit)

lemma satisfies_bounds:
  assumes "satisfies M x"
  shows "0 \<le> count x \<and> count x \<le> int (fcard (cells x))"
proof -
  have "card (fset (cells x) \<inter> M) \<le> card (fset (cells x))"
    by (rule card_mono) auto
  with assms show ?thesis
    by (simp add: satisfies_def fcard.rep_eq)
qed

lemma satisfies_mark_mine:
  assumes "satisfies M x" and "c \<in> M"
  shows "satisfies M (sentence_mark_mine x c)"
proof (cases "c |\<in>| cells x")
  case True
  have "fset (cells x |-| {|c|}) \<inter> M = (fset (cells x) \<inter> M) - {c}"
    by auto
  moreover have "c \<in> fset (cells x) \<inter> M"
    using True assms(2) by simp
  then have "card ((fset (cells x) \<inter> M) - {c}) = card (fset (cells x) \<inter> M) - 1"
    and "1 \<le> card (fset (cells x) \<inter> M)"
    by (simp_all add: card_gt_0_iff Suc_le_eq) blast
  ultimately show ?thesis
    using assms(1) True by (simp add: satisfies_def sentence_mark_mine_def)
next
  case False
  with assms(1) show ?thesis by (simp add: sentence_mark_mine_def)
qed

lemma satisfies_mark_safe:
  assumes "satisfies M x" and "c \<notin> M"
  shows "satisfies M (sentence_mark_safe x c)"
proof -
  have "fset (cells x |-| {|c|}) \<inter> M = fset (cells x) \<inter> M"
    using assms(2) by auto
  with assms(1) show ?thesis
    by (simp add: satisfies_def sentence_mark_safe_def)
qed

lemma inferred_sound:
  assumes "satisfies M a" and "satisfies M b" and "cells a |\<subset>| cells b"
  shows "satisfies M (inferred a b)"
proof -
  have sub: "fset (cells a) \<inter> M \<subseteq> fset (cells b) \<inter> M"
    using assms(3) by auto
  have "fset (cells b |-| cells a) \<inter> M = (fset (cells b) \<inter> M) - (fset (cells a) \<inter> M)"
    by auto
  moreover have "card ((fset (cells b) \<inter> M) - (fset (cells a) \<inter> M))
      = card (fset (cells b) \<inter> M) - card (fset (cells a) \<inter> M)"
    by (rule card_Diff_subset) (use sub in auto)
  moreover have "card (fset (cells a) \<inter> M) \<le> card (fset (cells b) \<inter> M)"
    by (rule card_mono) (use sub in auto)
  ultimately show ?thesis
    using assms(1,2) by (simp add: satisfies_def inferred_def)
qed

lemma consistent_mark_mine:
  assumes "consistent M s" and "c \<in> M"
  shows "consistent M (mark_mine s c)"
  using assms by (auto simp: consistent_def mark_mine_def satisfies_mark_mine)

lemma consistent_mark_safe:
  assumes "consistent M s" and "c \<notin> M"
  shows "consistent M (mark_safe s c)"
  using assms by (auto simp: consistent_def mark_safe_def satisfies_mark_safe)

lemma consistent_fold_mark_mine:
  "consistent M s \<Longrightarrow> set cs \<subseteq> M \<Longrightarrow> consistent M (fold (\<lambda>c t. mark_mine t c) cs s)"
  by (induction cs arbitrary: s) (simp_all add: consistent_mark_mine)

lemma consistent_fold_mark_safe:
  "consistent M s \<Longrightarrow> set cs \<inter> M = {} \<Longrightarrow> consistent M (fold (\<lambda>c t. mark_safe t c) cs s)"
  by (induction cs arbitrary: s) (simp_all add: consistent_mark_safe)

lemma known_mines_sound:
  assumes "satisfies M x"
  shows "fset (known_mines x) \<subseteq> M"
proof (cases "int (fcard (cells x)) = count x \<and> count x \<noteq> 0")
  case True
  with assms have "card (fset (cells x) \<inter> M) = card (fset (cells x))"
    by (simp add: satisfies_def fcard.rep_eq)
  then have "fset (cells x) \<inter> M = fset (cells x)"
    by (intro card_subset_eq) auto
  with True show ?thesis
    by (auto simp: known_mines_def)
next
  case False
  then show ?thesis by (auto simp: known_mines_def)
qed

lemma known_safes_sound:
  assumes "satisfies M x"
  shows "fset (known_safes x) \<inter> M = {}"
  using assms by (auto simp: known_safes_def satisfies_def)

lemma consistent_conclude:
  assumes "consistent M s" and "x \<in> set (knowledge s)"
  shows "consistent M (conclude s x)"
proof -
  from assms have "satisfies M x" by (simp add: consistent_def)
  then show ?thesis
    using assms(1) known_mines_sound [of M x] known_safes_sound [of M x]
    by (simp add: conclude_def Let_def consistent_fold_mark_mine consistent_fold_mark_safe)
qed

lemma consistent_extract_loop: "consistent M s \<Longrightarrow> consistent M (extract_loop i s)"
proof (induction i s rule: extract_loop.induct)
  case (1 i s)
  show ?case
  proof (cases "i < length (knowledge s)")
    case True
    with 1 show ?thesis
      by (subst extract_loop.simps) (simp add: consistent_conclude)
  next
    case False
    with 1 show ?thesis
      by (subst extract_loop.simps) simp
  qed
qed

text \<open>
  The neighbour loop of \<open>add_knowledge\<close> and the loop of \<open>nearby_mines\<close> run over the
  same cells; what the first subtracts and what it keeps add up to what the second counts.
\<close>

lemma neighbor_loops_agree:
  assumes "fset (mines s) \<subseteq> mine_cells g" and "fset (safes s) \<inter> mine_cells g = {}"
    and "height s = ms_height g" and "width s = ms_width g"
  shows "distinct ps \<Longrightarrow> \<forall>p \<in> set ps. p |\<notin>| fst acc \<Longrightarrow> nearby_loop g c ps k = Some n \<Longrightarrow>
     snd (fold (neighbor_step s c) ps acc)
       - int (card (fset (fst (fold (neighbor_step s c) ps acc)) \<inter> mine_cells g))
     = snd acc - int (card (fset (fst acc) \<inter> mine_cells g)) - (n - k)"
proof (induction ps arbitrary: acc k)
  case Nil
  then show ?case by simp
next
  case (Cons p ps)
  let ?M = "mine_cells g"
  from Cons.prems have d: "distinct ps" and np: "p \<notin> set ps" and fresh: "\<forall>q \<in> set ps. q |\<notin>| fst acc"
    and pacc: "p |\<notin>| fst acc"
    by simp_all
  show ?case
  proof (cases "p = c \<or> \<not> (0 \<le> fst p \<and> fst p < ms_height g \<and> 0 \<le> snd p \<and> snd p < ms_width g)")
    case True
    then have "neighbor_step s c p acc = acc" and "nearby_loop g c ps k = Some n"
      using Cons.prems(3) assms(3,4) by (auto simp: neighbor_step_def split: if_splits)
    with Cons.IH [OF d fresh, of k] show ?thesis by simp
  next
    case False
    then obtain b where b: "is_mine g p = Some b"
      and l: "nearby_loop g c ps (if b then k + 1 else k) = Some n"
      using Cons.prems(3) by (auto split: option.splits)
    have pm: "p \<in> ?M \<longleftrightarrow> b"
      using b by (simp add: mine_cells_def)
    show ?thesis
    proof (cases "p |\<in>| mines s")
      case True
      with assms(1) pm have "b" by auto
      moreover have "neighbor_step s c p acc = (fst acc, snd acc - 1)"
        using True False assms(3,4) by (simp add: neighbor_step_def)
      moreover have "\<forall>q \<in> set ps. q |\<notin>| fst (fst acc, snd acc - 1)"
        using fresh by simp
      ultimately show ?thesis
        using Cons.IH [OF d, of "(fst acc, snd acc - 1)" "k + 1"] l by simp
    next
      case nm: False
      show ?thesis
      proof (cases "p |\<in>| safes s")
        case True
        with assms(2) pm have "\<not> b" by auto
        moreover have "neighbor_step s c p acc = acc"
          using True nm False assms(3,4) by (simp add: neighbor_step_def)
        ultimately show ?thesis
          using Cons.IH [OF d fresh, of k] l by simp
      next
        case ns: False
        have st: "neighbor_step s c p acc = (finsert p (fst acc), snd acc)"
          using ns nm False assms(3,4) by (simp add: neighbor_step_def)
        have fr: "\<forall>q \<in> set ps. q |\<notin>| fst (finsert p (fst acc), snd acc)"
          using fresh np by auto
        have "card (fset (finsert p (fst acc)) \<inter> ?M)
            = card (fset (fst acc) \<inter> ?M) + (if b then 1 else 0)"
        proof (cases b)
          case True
          with pm have "fset (finsert p (fst acc)) \<inter> ?M = insert p (fset (fst acc) \<inter> ?M)"
            by auto
          moreover have "p \<notin> fset (fst acc) \<inter> ?M" using pacc by simp
          ultimately show ?thesis using True by simp
        next
          case False
          with pm have "fset (finsert p (fst acc)) \<inter> ?M = fset (fst acc) \<inter> ?M"
            by auto
          with False show ?thesis by simp
        qed
        with Cons.IH [OF d fr l] st show ?thesis
          by (cases b) simp_all
      qed
    qed
  qed
qed

lemma new_sentence_sound:
  assumes "fset (mines s) \<subseteq> mine_cells g" and "fset (safes s) \<inter> mine_cells g = {}"
    and "height s = ms_height g" and "width s = ms_width g"
    and "nearby_mines g c = Some n"
  shows "satisfies (mine_cells g) (new_sentence s c n)"
  using neighbor_loops_agree [OF assms(1-4) distinct_around [of c],
      where acc = "({||}, n)" and k = 0 and n = n and c = c] assms(5)
  by (simp add: satisfies_def new_sentence_def Let_def nearby_mines_def)

lemma size_mark_mine [simp]:
  "height (mark_mine s c) = height s" "width (mark_mine s c) = width s"
  by (simp_all add: mark_mine_def)

lemma size_mark_safe [simp]:
  "height (mark_safe s c) = height s" "width (mark_safe s c) = width s"
  by (simp_all add: mark_safe_def)

lemma size_fold_mark_mine [simp]:
  "height (fold (\<lambda>c t. mark_mine t c) cs s) = height s"
  "width (fold (\<lambda>c t. mark_mine t c) cs s) = width s"
  by (induction cs arbitrary: s) simp_all

lemma size_fold_mark_safe [simp]:
  "height (fold (\<lambda>c t. mark_safe t c) cs s) = height s"
  "width (fold (\<lambda>c t. mark_safe t c) cs s) = width s"
  by (induction cs arbitrary: s) simp_all

lemma size_conclude [simp]:
  "height (conclude s x) = height s" "width (conclude s x) = width s"
  by (simp_all add: conclude_def Let_def)

lemma size_extract_loop [simp]:
  "height (extract_loop i s) = height s \<and> width (extract_loop i s) = width s"
proof (induction i s rule: extract_loop.induct)
  case (1 i s)
  then show ?case
    by (subst (1 2) extract_loop.simps) simp
qed

lemma size_observe [simp]:
  "height (observe s c n) = height s" "width (observe s c n) = width s"
  by (simp_all add: observe_def Let_def)

lemma consistent_observe:
  assumes "consistent (mine_cells g) s" and "height s = ms_height g" and "width s = ms_width g"
    and "is_mine g c = Some False" and "nearby_mines g c = Some n"
  shows "consistent (mine_cells g) (observe s c n)"
proof -
  let ?s1 = "s\<lparr>moves_made := finsert c (moves_made s)\<rparr>"
  let ?s2 = "mark_safe ?s1 c"
  have "consistent (mine_cells g) ?s1"
    using assms(1) by (simp add: consistent_def)
  moreover have "c \<notin> mine_cells g"
    using assms(4) by (simp add: mine_cells_def)
  ultimately have c2: "consistent (mine_cells g) ?s2"
    by (rule consistent_mark_safe)
  then have "satisfies (mine_cells g) (new_sentence ?s2 c n)"
    using assms(2,3,5) by (intro new_sentence_sound) (simp_all add: consistent_def)
  with c2 show ?thesis
    by (simp add: observe_def Let_def consistent_def)
qed

lemma consistent_add_knowledge:
  assumes "consistent (mine_cells g) s" and "height s = ms_height g" and "width s = ms_width g"
    and "is_mine g c = Some False" and "nearby_mines g c = Some n"
    and "add_knowledge s c n = Some s'"
  shows "consistent (mine_cells g) s' \<and> height s' = ms_height g \<and> width s' = ms_width g"
proof -
  let ?t = "extract_loop 0 (observe s c n)"
  have t: "consistent (mine_cells g) ?t"
    using assms(1-5) by (simp add: consistent_observe consistent_extract_loop)
  then have "\<forall>x \<in> set (prune (knowledge ?t)). satisfies (mine_cells g) x"
    by (simp add: consistent_def prune_def)
  with knowledge_add_knowledge [OF assms(6)]
  have "\<forall>x \<in> set (knowledge s'). satisfies (mine_cells g) x"
    by (rule subset_loop_all) (rule inferred_sound)
  with t show ?thesis
    using assms(2,3) by (simp add: consistent_def add_knowledge_fields [OF assms(6)])
qed

lemma consistent_step:
  assumes "consistent (mine_cells g) s \<and> height s = ms_height g \<and> width s = ms_width g"
    and "truthful g c" and "step s c = Some t"
  shows "consistent (mine_cells g) t \<and> height t = ms_height g \<and> width t = ms_width g"
proof (cases c)
  case (Add_knowledge p n)
  with assms show ?thesis
    using consistent_add_knowledge [of g s p n t] by simp
next
  case (Mark_mine p)
  with assms show ?thesis
    by (auto simp: mine_cells_def intro: consistent_mark_mine)
next
  case (Mark_safe p)
  with assms show ?thesis
    by (auto simp: mine_cells_def intro: consistent_mark_safe)
qed

lemma consistent_run:
  "consistent (mine_cells g) s \<and> height s = ms_height g \<and> width s = ms_width g \<Longrightarrow>
   \<forall>c \<in> set cs. truthful g c \<Longrightarrow> run s cs = Some t \<Longrightarrow>
   consistent (mine_cells g) t \<and> height t = ms_height g \<and> width t = ms_width g"
proof (induction cs arbitrary: s)
  case Nil
  then show ?case by simp
next
  case (Cons c cs)
  from Cons.prems(3) obtain u where u: "step s c = Some u" and r: "run u cs = Some t"
    by (auto split: option.splits)
  from Cons.prems(1,2) u
  have "consistent (mine_cells g) u \<and> height u = ms_height g \<and> width u = ms_width g"
    by (intro consistent_step [of g s c u]) simp_all
  then show ?case
    using Cons.prems(2) r by (intro Cons.IH) simp_all
qed

lemma consistent_init: "consistent M (init_ai h w)"
  by (simp add: consistent_def init_ai_def)

lemma subset_loop_returns:
  assumes fin: "finite F"
    and closedF: "\<And>a b. a \<in> F \<Longrightarrow> b \<in> F \<Longrightarrow> cells a |\<subset>| cells b \<Longrightarrow> inferred a b \<in> F"
  shows "set kb \<subseteq> F \<Longrightarrow> \<exists>kb'. subset_loop kb i j = Some kb'"
proof (induction "(card (F - set kb), length kb - i, length kb - j)"
    arbitrary: kb i j rule: wf_induct_rule [OF wf_lex_prod [OF wf_less wf_lex_prod [OF wf_less wf_less]]])
  case less: 1
  show ?case
  proof (cases "i < length kb")
    case False
    then show ?thesis
      by (subst subset_loop.simps) simp
  next
    case i: True
    show ?thesis
    proof (cases "j < length kb")
      case False
      have "\<exists>kb'. subset_loop kb (Suc i) 0 = Some kb'"
        using i less.prems by (intro less.hyps) auto
      with i False show ?thesis
        by (subst subset_loop.simps) simp
    next
      case j: True
      let ?kb = "subset_step kb (kb ! i) (kb ! j)"
      have "\<exists>kb'. subset_loop ?kb i (Suc j) = Some kb'"
      proof (cases "cells (kb ! i) |\<subset>| cells (kb ! j) \<and> inferred (kb ! i) (kb ! j) \<notin> set kb")
        case False
        then have "?kb = kb"
          by (auto simp: subset_step_def)
        then show ?thesis
          using j less.prems by (intro less.hyps) auto
      next
        case True
        let ?x = "inferred (kb ! i) (kb ! j)"
        from True have app: "?kb = kb @ [?x]"
          by (simp add: subset_step_def)
        have "kb ! i \<in> F" and "kb ! j \<in> F"
          using i j less.prems nth_mem by blast+
        then have xF: "?x \<in> F"
          using True by (intro closedF) simp_all
        have "F - set ?kb = (F - set kb) - {?x}"
          by (auto simp: app)
        moreover have "?x \<in> F - set kb"
          using xF True by simp
        then have "card ((F - set kb) - {?x}) < card (F - set kb)"
          using fin by (intro card_Diff1_less) simp_all
        ultimately have "card (F - set ?kb) < card (F - set kb)"
          by simp
        moreover have "set ?kb \<subseteq> F"
          using xF less.prems by (simp add: app)
        ultimately show ?thesis
          by (intro less.hyps) auto
      qed
      with i j show ?thesis
        by (subst subset_loop.simps) simp
    qed
  qed
qed

lemma sentence_by_fields: "x = \<lparr>cells = cells x, count = count x\<rparr>"
  by (cases x) simp

lemma finite_satisfying: "finite {x. cells x |\<subseteq>| U \<and> satisfies M x}"
proof -
  let ?f = "\<lambda>A. \<lparr>cells = A, count = int (card (fset A \<inter> M))\<rparr>"
  have "x \<in> ?f ` fset (fPow U)" if "cells x |\<subseteq>| U \<and> satisfies M x" for x
  proof -
    from that have "x = ?f (cells x)"
      using sentence_by_fields [of x] by (simp add: satisfies_def)
    moreover from that have "cells x \<in> fset (fPow U)"
      by simp
    ultimately show ?thesis by (rule image_eqI)
  qed
  then have "{x. cells x |\<subseteq>| U \<and> satisfies M x} \<subseteq> ?f ` fset (fPow U)"
    by blast
  then show ?thesis
    by (rule finite_subset) simp
qed

lemma cells_bounded: "\<exists>U. \<forall>x \<in> set kb. cells x |\<subseteq>| U"
proof (induction kb)
  case Nil
  then show ?case by simp
next
  case (Cons a kb)
  then obtain U where "\<forall>x \<in> set kb. cells x |\<subseteq>| U"
    by blast
  then have "\<forall>x \<in> set (a # kb). cells x |\<subseteq>| cells a |\<union>| U"
    by auto
  then show ?case ..
qed

text \<open>
  On sentences that one mine layout satisfies the subset loop returns: a satisfied
  sentence is fixed by its cells, so only finitely many can be derived.
\<close>

lemma subset_loop_returns_satisfied:
  assumes "\<forall>x \<in> set kb. satisfies M x"
  shows "\<exists>kb'. subset_loop kb i j = Some kb'"
proof -
  from cells_bounded obtain U where U: "\<forall>x \<in> set kb. cells x |\<subseteq>| U"
    by blast
  let ?F = "{x. cells x |\<subseteq>| U \<and> satisfies M x}"
  have "finite ?F"
    by (rule finite_satisfying)
  moreover have "inferred a b \<in> ?F" if "a \<in> ?F" and "b \<in> ?F" and "cells a |\<subset>| cells b" for a b
  proof -
    have "cells (inferred a b) |\<subseteq>| cells b"
      by (auto simp: inferred_def)
    with that show ?thesis
      by (auto intro: inferred_sound)
  qed
  moreover have "set kb \<subseteq> ?F"
    using assms U by blast
  ultimately show ?thesis
    by (rule subset_loop_returns)
qed

lemma add_knowledge_returns:
  assumes "consistent (mine_cells g) s" and "height s = ms_height g" and "width s = ms_width g"
    and "is_mine g c = Some False" and "nearby_mines g c = Some n"
  shows "\<exists>s'. add_knowledge s c n = Some s'"
proof -
  let ?t = "extract_loop 0 (observe s c n)"
  have "consistent (mine_cells g) ?t"
    using assms by (simp add: consistent_observe consistent_extract_loop)
  then have "\<forall>x \<in> set (prune (knowledge ?t)). satisfies (mine_cells g) x"
    by (simp add: consistent_def prune_def)
  then have "\<exists>kb'. subset_loop (prune (knowledge ?t)) 0 0 = Some kb'"
    by (rule subset_loop_returns_satisfied)
  then show ?thesis
    by (auto simp: add_knowledge_def Let_def)
qed

lemma step_returns:
  assumes "consistent (mine_cells g) s \<and> height s = ms_height g \<and> width s = ms_width g"
    and "truthful g c"
  shows "\<exists>t. step s c = Some t"
  using assms by (cases c) (auto intro: add_knowledge_returns)

lemma run_returns:
  "consistent (mine_cells g) s \<and> height s = ms_height g \<and> width s = ms_width g \<Longrightarrow>
   \<forall>c \<in> set cs. truthful g c \<Longrightarrow> \<exists>t. run s cs = Some t"
proof (induction cs arbitrary: s)
  case Nil
  then show ?case by simp
next
  case (Cons c cs)
  from step_returns [OF Cons.prems(1)] Cons.prems(2) obtain u where u: "step s c = Some u"
    by auto
  from Cons.prems u
  have "consistent (mine_cells g) u \<and> height u = ms_height g \<and> width u = ms_width g"
    by (intro consistent_step [of g s c u]) simp_all
  then have "\<exists>t. run u cs = Some t"
    using Cons.prems(2) by (intro Cons.IH) simp_all
  with u show ?case by simp
qed

lemma the_result:
  "\<exists>s. r = Some s \<and> Q s \<Longrightarrow> r = Some t \<Longrightarrow> Q t"
  by auto

text \<open>
  C1 as stated fails. The two sentence methods alone do not keep the bounds: removing the only cell of
  \<open>{(0, 0)} = 1\<close> as safe leaves count 1 on no cells, and removing the only cell of
  \<open>{(0, 0)} = 0\<close> as a mine leaves count -1. Nor does \<open>add_knowledge\<close>: on a 2 by 2
  board, revealing \<open>(0, 0)\<close> with count 5 stores count 5 on three cells.
\<close>

theorem count_invariant_broken:
  "count \<lparr>cells = {|(0, 0)|}, count = 1\<rparr> \<le> int (fcard (cells \<lparr>cells = {|(0, 0)|}, count = 1\<rparr>))
   \<and> \<not> count (sentence_mark_safe \<lparr>cells = {|(0, 0)|}, count = 1\<rparr> (0, 0))
        \<le> int (fcard (cells (sentence_mark_safe \<lparr>cells = {|(0, 0)|}, count = 1\<rparr> (0, 0))))
   \<and> 0 \<le> count \<lparr>cells = {|(0, 0)|}, count = 0\<rparr>
   \<and> \<not> 0 \<le> count (sentence_mark_mine \<lparr>cells = {|(0, 0)|}, count = 0\<rparr> (0, 0))
   \<and> map_option knowledge (run (init_ai 2 2) [Add_knowledge (0, 0) 5])
     = Some [\<lparr>cells = {|(0, 1), (1, 0), (1, 1)|}, count = 5\<rparr>]
   \<and> \<not> count \<lparr>cells = {|(0, 1), (1, 0), (1, 1)|}, count = 5\<rparr>
        \<le> int (fcard (cells \<lparr>cells = {|(0, 1), (1, 0), (1, 1)|}, count = 5\<rparr>))"
  by code_simp

text \<open>
  C1, amended. In a game against a board, where every call is truthful for the board,
  every call returns, and every sentence then held in the knowledge base has
  \<open>0 \<le> count \<le> |cells|\<close>; on such a sentence \<open>Sentence.mark_mine\<close> with a cell that
  is a mine, and \<open>Sentence.mark_safe\<close> with a cell that is not, keep these bounds.
\<close>

theorem count_invariant_in_truthful_game:
  assumes "\<forall>c \<in> set cs. truthful g c"
  shows "\<exists>s. run (init_ai (ms_height g) (ms_width g)) cs = Some s
    \<and> (\<forall>x \<in> set (knowledge s).
          0 \<le> count x \<and> count x \<le> int (fcard (cells x))
          \<and> (\<forall>c. is_mine g c = Some True \<longrightarrow>
                0 \<le> count (sentence_mark_mine x c)
                \<and> count (sentence_mark_mine x c) \<le> int (fcard (cells (sentence_mark_mine x c))))
          \<and> (\<forall>c. is_mine g c = Some False \<longrightarrow>
                0 \<le> count (sentence_mark_safe x c)
                \<and> count (sentence_mark_safe x c) \<le> int (fcard (cells (sentence_mark_safe x c)))))"
proof -
  have start: "consistent (mine_cells g) (init_ai (ms_height g) (ms_width g))
      \<and> height (init_ai (ms_height g) (ms_width g)) = ms_height g
      \<and> width (init_ai (ms_height g) (ms_width g)) = ms_width g"
    by (simp add: consistent_init) (simp add: init_ai_def)
  from run_returns [OF start assms] obtain s
    where s: "run (init_ai (ms_height g) (ms_width g)) cs = Some s"
    by blast
  from consistent_run [OF start assms s] have cs: "consistent (mine_cells g) s"
    by simp
  have "0 \<le> count x \<and> count x \<le> int (fcard (cells x))
      \<and> (\<forall>c. is_mine g c = Some True \<longrightarrow>
            0 \<le> count (sentence_mark_mine x c)
            \<and> count (sentence_mark_mine x c) \<le> int (fcard (cells (sentence_mark_mine x c))))
      \<and> (\<forall>c. is_mine g c = Some False \<longrightarrow>
            0 \<le> count (sentence_mark_safe x c)
            \<and> count (sentence_mark_safe x c) \<le> int (fcard (cells (sentence_mark_safe x c))))"
    if "x \<in> set (knowledge s)" for x
  proof -
    from cs that have x: "satisfies (mine_cells g) x"
      by (simp add: consistent_def)
    have "\<And>c. is_mine g c = Some True \<Longrightarrow> satisfies (mine_cells g) (sentence_mark_mine x c)"
      using x by (intro satisfies_mark_mine) (simp_all add: mine_cells_def)
    moreover
    have "\<And>c. is_mine g c = Some False \<Longrightarrow> satisfies (mine_cells g) (sentence_mark_safe x c)"
      using x by (intro satisfies_mark_safe) (simp_all add: mine_cells_def)
    ultimately show ?thesis
      using x satisfies_bounds by blast
  qed
  with s show ?thesis by blast
qed

theorem count_invariant_in_truthful_game_witness:
  "truthful \<lparr>ms_height = 2, ms_width = 2, board = [[False, False], [False, True]]\<rparr>
     (Add_knowledge (0, 0) 1)
   \<and> truthful \<lparr>ms_height = 2, ms_width = 2, board = [[False, False], [False, True]]\<rparr>
     (Add_knowledge (1, 0) 1)
   \<and> run (init_ai 2 2) [Add_knowledge (0, 0) 1, Add_knowledge (1, 0) 1]
     = Some ((init_ai 2 2)\<lparr>moves_made := {|(0, 0), (1, 0)|}, safes := {|(0, 0), (1, 0)|},
          knowledge := [\<lparr>cells = {|(0, 1), (1, 1)|}, count = 1\<rparr>,
            \<lparr>cells = {|(0, 1), (1, 1)|}, count = 1\<rparr>]\<rparr>)
   \<and> 0 \<le> count \<lparr>cells = {|(0, 1), (1, 1)|}, count = 1\<rparr>
   \<and> count \<lparr>cells = {|(0, 1), (1, 1)|}, count = 1\<rparr>
       \<le> int (fcard (cells \<lparr>cells = {|(0, 1), (1, 1)|}, count = 1\<rparr>))
   \<and> is_mine \<lparr>ms_height = 2, ms_width = 2, board = [[False, False], [False, True]]\<rparr> (1, 1)
     = Some True
   \<and> sentence_mark_mine \<lparr>cells = {|(0, 1), (1, 1)|}, count = 1\<rparr> (1, 1)
     = \<lparr>cells = {|(0, 1)|}, count = 0\<rparr>
   \<and> 0 \<le> count (sentence_mark_mine \<lparr>cells = {|(0, 1), (1, 1)|}, count = 1\<rparr> (1, 1))"
proof -
  let ?g = "\<lparr>ms_height = 2, ms_width = 2, board = [[False, False], [False, True]]\<rparr>"
  let ?cs = "[Add_knowledge (0, 0) 1, Add_knowledge (1, 0) 1]"
  let ?x = "\<lparr>cells = {|(0, 1), (1, 1)|}, count = 1\<rparr>"
  let ?t = "(init_ai 2 2)\<lparr>moves_made := {|(0, 0), (1, 0)|}, safes := {|(0, 0), (1, 0)|},
          knowledge := [?x, ?x]\<rparr>"
  have t1: "truthful ?g (Add_knowledge (0, 0) 1)"
    by code_simp
  have t2: "truthful ?g (Add_knowledge (1, 0) 1)"
    by code_simp
  from t1 t2 have t: "\<forall>c \<in> set ?cs. truthful ?g c"
    by simp
  have r: "run (init_ai (ms_height ?g) (ms_width ?g)) ?cs = Some ?t"
    by code_simp
  then have r': "run (init_ai 2 2) ?cs = Some ?t"
    by simp
  have x: "?x \<in> set (knowledge ?t)"
    by simp
  have m: "is_mine ?g (1, 1) = Some True"
    by code_simp
  have e: "sentence_mark_mine ?x (1, 1) = \<lparr>cells = {|(0, 1)|}, count = 0\<rparr>"
    by code_simp
  note th = the_result [OF count_invariant_in_truthful_game [OF t] r, THEN bspec, OF x]
  have b1: "0 \<le> count ?x"
    by (rule th [THEN conjunct1])
  have b2: "count ?x \<le> int (fcard (cells ?x))"
    by (rule th [THEN conjunct2, THEN conjunct1])
  have k: "0 \<le> count (sentence_mark_mine ?x (1, 1))"
    by (rule th [THEN conjunct2, THEN conjunct2, THEN conjunct1, THEN spec, THEN mp, OF m,
          THEN conjunct1])
  from t1 t2 r' b1 b2 m e k show ?thesis
    by (intro conjI)
qed

section \<open>The subset rule\<close>


lemma set_drop_split:
  assumes "j < length kb"
  shows "set (drop j kb) = insert (kb ! j) (set (drop (Suc j) kb))"
  using assms by (simp add: Cons_nth_drop_Suc [symmetric])










lemma extremal_exists:
  assumes "x \<in> set kb" and "cells x \<noteq> {||}"
  shows "\<exists>y \<in> set kb. cells y \<noteq> {||}
     \<and> (\<forall>z \<in> set kb. cells z = cells y \<longrightarrow> (c::int) * count y \<le> c * count z)"
proof -
  let ?S = "{z \<in> set kb. cells z = cells x}"
  let ?f = "\<lambda>z. c * count z"
  have fin: "finite (?f ` ?S)" and "?f ` ?S \<noteq> {}"
    using assms(1) by auto
  then have "Min (?f ` ?S) \<in> ?f ` ?S"
    by (rule Min_in)
  then obtain y where y: "y \<in> ?S" "?f y = Min (?f ` ?S)"
    by auto
  have "Min (?f ` ?S) \<le> ?f z" if "z \<in> ?S" for z
    using fin that by (intro Min_le) auto
  with y have "\<forall>z \<in> ?S. ?f y \<le> ?f z"
    by simp
  with y assms(2) show ?thesis
    by (intro bexI [of _ y]) auto
qed

lemma count_inferred_empty:
  assumes "cells a = {||}"
  shows "inferred a b = \<lparr>cells = cells b, count = count b - count a\<rparr>"
  using assms by (simp add: inferred_def)

lemma square_positive: "(c::int) \<noteq> 0 \<Longrightarrow> 0 < c * c"
  by (cases "c < 0") (simp_all add: mult_neg_neg)

lemma doomed_next_row:
  assumes "doomed kb i j" and "i < length kb" and "\<not> j < length kb"
  shows "doomed kb (Suc i) 0"
proof -
  from assms(3) have d: "drop j kb = []" by simp
  from assms(1) obtain e x where e: "i \<le> e" "e < length kb" "cells (kb ! e) = {||}"
    "count (kb ! e) \<noteq> 0" and x: "x \<in> set kb" "cells x \<noteq> {||}" and "e \<noteq> i"
    unfolding doomed_def d by auto
  then have "Suc i \<le> e" by simp
  moreover from extremal_exists [OF x, of "count (kb ! Suc i)"]
  have "\<exists>y \<in> set (drop 0 kb). cells y \<noteq> {||}
     \<and> (\<forall>z \<in> set kb. cells z = cells y \<longrightarrow>
          count (kb ! Suc i) * count y \<le> count (kb ! Suc i) * count z)"
    by simp
  ultimately show ?thesis
    unfolding doomed_def using e x by blast
qed

lemma doomed_step:
  assumes dm: "doomed kb i j" and i: "i < length kb" and j: "j < length kb"
  shows "doomed (subset_step kb (kb ! i) (kb ! j)) i (Suc j)"
proof -
  let ?b = "kb ! j"
  let ?c = "inferred (kb ! i) ?b"
  let ?kb = "subset_step kb (kb ! i) ?b"
  from dm obtain e x where e: "i \<le> e" "e < length kb" "cells (kb ! e) = {||}"
    "count (kb ! e) \<noteq> 0" and x: "x \<in> set kb" "cells x \<noteq> {||}"
    and ex: "e = i \<longrightarrow> (\<exists>y \<in> set (drop j kb). cells y \<noteq> {||}
               \<and> (\<forall>z \<in> set kb. cells z = cells y \<longrightarrow>
                     count (kb ! i) * count y \<le> count (kb ! i) * count z))"
    unfolding doomed_def by blast
  have kb: "?kb = kb \<or> ?kb = kb @ [?c]"
    by (simp add: subset_step_def)
  then have nth: "\<And>k. k < length kb \<Longrightarrow> ?kb ! k = kb ! k" and len: "e < length ?kb"
    and x': "x \<in> set ?kb"
    using e(2) x(1) by (auto simp: nth_append)
  have "\<exists>y \<in> set (drop (Suc j) ?kb). cells y \<noteq> {||}
      \<and> (\<forall>z \<in> set ?kb. cells z = cells y \<longrightarrow> count (kb ! i) * count y \<le> count (kb ! i) * count z)"
    if ei: "e = i"
  proof -
    let ?n = "count (kb ! i)"
    from ei e have emp: "cells (kb ! i) = {||}" and n: "?n \<noteq> 0"
      by simp_all
    from ex ei obtain y where y: "y \<in> set (drop j kb)" "cells y \<noteq> {||}"
      and ym: "\<forall>z \<in> set kb. cells z = cells y \<longrightarrow> ?n * count y \<le> ?n * count z"
      by blast
    from y(1) have yj: "y = ?b \<or> y \<in> set (drop (Suc j) kb)"
      by (simp add: set_drop_split [OF j])
    have c: "?c = \<lparr>cells = cells ?b, count = count ?b - ?n\<rparr>"
      using emp by (rule count_inferred_empty)
    have less: "?n * count ?c < ?n * count ?b"
      using square_positive [OF n] by (simp add: c algebra_simps)
    show ?thesis
    proof (cases "cells (kb ! i) |\<subset>| cells ?b \<and> ?c \<notin> set kb")
      case False
      then have same: "?kb = kb"
        by (auto simp: subset_step_def)
      have "y \<noteq> ?b"
      proof
        assume yb: "y = ?b"
        with y(2) emp have "cells (kb ! i) |\<subset>| cells ?b" by auto
        with False have "?c \<in> set kb" by simp
        moreover have "cells ?c = cells y" using yb by (simp add: c)
        ultimately have "?n * count y \<le> ?n * count ?c" using ym by blast
        with less yb show False by simp
      qed
      with yj have "y \<in> set (drop (Suc j) kb)" by simp
      with y(2) ym same show ?thesis by auto
    next
      case True
      then have app: "?kb = kb @ [?c]"
        by (simp add: subset_step_def)
      then have dr: "set (drop (Suc j) ?kb) = insert ?c (set (drop (Suc j) kb))"
        and st: "set ?kb = insert ?c (set kb)"
        using j by simp_all
      show ?thesis
      proof (cases "cells y = cells ?b \<and> ?n * count ?c < ?n * count y")
        case better: True
        have "cells ?c \<noteq> {||}"
          using better y(2) by (simp add: c)
        moreover have "\<forall>z \<in> set ?kb. cells z = cells ?c \<longrightarrow> ?n * count ?c \<le> ?n * count z"
        proof (intro ballI impI)
          fix z assume z: "z \<in> set ?kb" "cells z = cells ?c"
          show "?n * count ?c \<le> ?n * count z"
          proof (cases "z = ?c")
            case True
            then show ?thesis by simp
          next
            case False
            with z st have "z \<in> set kb" "cells z = cells y"
              using better by (simp_all add: c)
            with ym have "?n * count y \<le> ?n * count z" by blast
            with better show ?thesis by simp
          qed
        qed
        ultimately show ?thesis
          unfolding dr by blast
      next
        case keep: False
        have "y \<in> set (drop (Suc j) kb)"
        proof (rule ccontr)
          assume "y \<notin> set (drop (Suc j) kb)"
          with yj have "y = ?b" by simp
          with less keep show False by simp
        qed
        moreover have "\<forall>z \<in> set ?kb. cells z = cells y \<longrightarrow> ?n * count y \<le> ?n * count z"
        proof (intro ballI impI)
          fix z assume z: "z \<in> set ?kb" "cells z = cells y"
          show "?n * count y \<le> ?n * count z"
          proof (cases "z = ?c")
            case True
            with z(2) have "cells y = cells ?b" by (simp add: c)
            with keep True show ?thesis by simp
          next
            case False
            with z st ym show ?thesis by simp
          qed
        qed
        ultimately show ?thesis
          using y(2) unfolding dr by blast
      qed
    qed
  qed
  then show ?thesis
    unfolding doomed_def using e len x x' nth [OF e(2)] nth [OF i] by metis
qed

lemma doomed_never_returns:
  "subset_loop kb i j = Some kb' \<Longrightarrow> doomed kb i j \<Longrightarrow> False"
proof (induction kb i j kb' rule: subset_loop_induct)
  case (1 loop kb i j kb')
  from "1.prems" have i: "i < length kb"
    by (auto simp: doomed_def)
  show ?case
  proof (cases "j < length kb")
    case False
    with i 1(2) have "loop kb (Suc i) 0 = Some kb'" by simp
    then show ?thesis
      using doomed_next_row [OF "1.prems" i False] by (rule "1.IH")
  next
    case True
    with i 1(2) have "loop (subset_step kb (kb ! i) (kb ! j)) i (Suc j) = Some kb'" by simp
    then show ?thesis
      using doomed_step [OF "1.prems" i True] by (rule "1.IH")
  qed
qed

text \<open>
  A sentence without cells and with a count other than 0 next to a sentence with cells:
  each visit of the pair appends a sentence with a new count, and the loops do not end.
\<close>

lemma subset_loop_diverges:
  assumes "x \<in> set kb" and "cells x = {||}" and "count x \<noteq> 0"
    and "y \<in> set kb" and "cells y \<noteq> {||}"
  shows "subset_loop kb 0 0 = None"
proof (rule ccontr)
  assume "subset_loop kb 0 0 \<noteq> None"
  then obtain kb' where l: "subset_loop kb 0 0 = Some kb'"
    by blast
  from assms(1) obtain e where e: "e < length kb" "kb ! e = x"
    by (auto simp: in_set_conv_nth)
  from extremal_exists [OF assms(4,5), of "count (kb ! 0)"] e assms
  have "doomed kb 0 0"
    unfolding doomed_def by (intro exI [of _ e]) auto
  with l show False
    by (rule doomed_never_returns)
qed








end
